theory Spec2Isabelle
  imports Main "HOL-Library.Word" "HOL-Library.While_Combinator"
begin

section \<open>Data model of \<^verbatim>\<open>server.js\<close>\<close>

text \<open>
  A Node.js \<^verbatim>\<open>Buffer\<close> is a list of bytes; a JavaScript string is a list of UTF-16 code
  units (\<^verbatim>\<open>length\<close>, \<^verbatim>\<open>charAt\<close> and \<^verbatim>\<open>includes\<close> with a one-unit argument all work
  on code units). The keyed hash \<^verbatim>\<open>crypto.createHmac('sha256', key).update(msg).digest()\<close>
  belongs to the platform, not to the repository: every function that reaches it takes it
  as the parameter \<open>hmac\<close>, key first, message second.
\<close>

type_synonym byte = "8 word"
type_synonym jschar = "16 word"
type_synonym jsstring = "jschar list"
type_synonym hmac_fn = "byte list \<Rightarrow> byte list \<Rightarrow> byte list"

text \<open>A string literal of the source, as code units.\<close>

definition js :: "string \<Rightarrow> jsstring" where
  "js s = map of_char s"

text \<open>
  The settings object of a request. \<^verbatim>\<open>settings.length\<close> is an integer (field
  \<open>length_setting\<close>, since \<open>length\<close> is the list function); the flags are read for their
  truth value only; \<^verbatim>\<open>customCharacters\<close> is truthy exactly when it is not empty.
\<close>

record settings =
  length_setting :: int
  includeLowercase :: bool
  includeUppercase :: bool
  includeNumbers :: bool
  includeSymbols :: bool
  includeExtendedLatin :: bool
  customCharacters :: jsstring
  requireEachSelected :: bool

text \<open>The keys of the \<^verbatim>\<open>selected\<close> object, and \<^verbatim>\<open>new Error(message)\<close>.\<close>

datatype category = Lowercase | Uppercase | Numbers | Symbols | ExtendedLatin | Custom

datatype error = Error string

section \<open>\<^verbatim>\<open>expandEntropy\<close>\<close>

text \<open>
  \<^verbatim>\<open>Buffer.from([i])\<close> stores every array entry modulo 256.
  \<^verbatim>\<open>source.copy(target, targetStart)\<close> overwrites the target from \<open>targetStart\<close> on and
  stops at the target's end.
\<close>

definition Buffer_from :: "nat list \<Rightarrow> byte list" where
  "Buffer_from xs = map of_nat xs"

definition Buffer_copy :: "byte list \<Rightarrow> byte list \<Rightarrow> nat \<Rightarrow> byte list" where
  "Buffer_copy source target targetStart =
     take (length target)
       (take targetStart target @ source @ drop (targetStart + length source) target)"

text \<open>
  \<^verbatim>\<open>Math.ceil(byteCount / 32)\<close> on a natural number is \<open>(byteCount + 31) div 32\<close>. The
  \<^verbatim>\<open>for\<close> loop over the block index is a fold over \<open>[0..<blocks]\<close>.
\<close>

definition expandEntropy :: "hmac_fn \<Rightarrow> byte list \<Rightarrow> nat \<Rightarrow> byte list" where
  "expandEntropy hmac entropy byteCount =
     (let blocks = (byteCount + 31) div 32;
          out = fold (\<lambda>i out. Buffer_copy (hmac entropy (Buffer_from [i])) out (i * 32))
                  [0..<blocks] (replicate (blocks * 32) 0)
      in take byteCount out)"

section \<open>\<^verbatim>\<open>buildCharacterSets\<close>\<close>

definition sets_lowercase :: jsstring where
  "sets_lowercase = js ''abcdefghijklmnopqrstuvwxyz''"

definition sets_uppercase :: jsstring where
  "sets_uppercase = js ''ABCDEFGHIJKLMNOPQRSTUVWXYZ''"

definition sets_numbers :: jsstring where
  "sets_numbers = js ''0123456789''"

text \<open>The double quote, the apostrophe and the backslash are written by their codes.\<close>

definition sets_symbols :: jsstring where
  "sets_symbols =
     js (''!'' @ [CHR 0x22] @ ''#$%&'' @ [CHR 0x27] @ ''()*+,-./:;<=>?@['' @ [CHR 0x5C] @ '']^_`{|}~'')"

text \<open>\<^verbatim>\<open>for (code = 0xA0; code <= 0xFF; code++) extended += String.fromCharCode(code)\<close>\<close>

definition sets_extendedLatin :: jsstring where
  "sets_extendedLatin = map of_nat [0xA0..<0x100]"

text \<open>
  \<open>selected\<close> is an association list in insertion order, the order in which
  \<^verbatim>\<open>for (const key in categories)\<close> visits the keys. An empty \<open>fullSet\<close> is falsy.
\<close>

definition buildCharacterSets :: "settings \<Rightarrow> error + (jsstring \<times> (category \<times> jsstring) list)" where
  "buildCharacterSets settings =
     (let selected = []; fullSet = [];
          (selected, fullSet) =
            (if includeLowercase settings
             then (selected @ [(Lowercase, sets_lowercase)], fullSet @ sets_lowercase)
             else (selected, fullSet));
          (selected, fullSet) =
            (if includeUppercase settings
             then (selected @ [(Uppercase, sets_uppercase)], fullSet @ sets_uppercase)
             else (selected, fullSet));
          (selected, fullSet) =
            (if includeNumbers settings
             then (selected @ [(Numbers, sets_numbers)], fullSet @ sets_numbers)
             else (selected, fullSet));
          (selected, fullSet) =
            (if includeSymbols settings
             then (selected @ [(Symbols, sets_symbols)], fullSet @ sets_symbols)
             else (selected, fullSet));
          (selected, fullSet) =
            (if includeExtendedLatin settings
             then (selected @ [(ExtendedLatin, sets_extendedLatin)], fullSet @ sets_extendedLatin)
             else (selected, fullSet));
          (selected, fullSet) =
            (if customCharacters settings \<noteq> []
             then (selected @ [(Custom, customCharacters settings)],
                   fullSet @ customCharacters settings)
             else (selected, fullSet))
      in if fullSet = [] then Inl (Error ''No character categories selected'')
         else Inr (fullSet, selected))"

section \<open>\<^verbatim>\<open>generatePassword\<close>\<close>

text \<open>
  \<^verbatim>\<open>Math.max(1, Math.min(settings.length || 16, 2048))\<close>: the operator \<^verbatim>\<open>||\<close> replaces a
  falsy length, which for an integer is 0, by 16.
\<close>

definition passwordLength_of :: "settings \<Rightarrow> nat" where
  "passwordLength_of settings =
     nat (max 1 (min (if length_setting settings = 0 then 16 else length_setting settings) 2048))"

text \<open>\<^verbatim>\<open>const max = 256 - (256 % setLength)\<close>\<close>

definition max_of :: "nat \<Rightarrow> nat" where
  "max_of setLength = 256 - 256 mod setLength"

text \<open>
  The variables one candidate works on: \<^verbatim>\<open>chars\<close>, \<^verbatim>\<open>present\<close> and \<^verbatim>\<open>p\<close> are fresh in
  every round of the \<^verbatim>\<open>do\<close> loop, \<^verbatim>\<open>expanded\<close> is declared outside it and survives from
  one round to the next.
\<close>

record attempt =
  st_chars :: jsstring
  st_present :: "category set"
  st_p :: nat
  st_expanded :: "byte list"

text \<open>
  \<^verbatim>\<open>if (p >= expanded.length) expanded = Buffer.concat([expanded, expandEntropy(entropy, 32)])\<close>
\<close>

definition grow :: "hmac_fn \<Rightarrow> byte list \<Rightarrow> nat \<Rightarrow> byte list \<Rightarrow> byte list" where
  "grow hmac entropy p expanded =
     (if p \<ge> length expanded then expanded @ expandEntropy hmac entropy 32 else expanded)"

text \<open>
  \<^verbatim>\<open>for (const key in categories) if (categories[key].includes(ch)) present[key] = true\<close>
\<close>

definition record_present :: "(category \<times> jsstring) list \<Rightarrow> jschar \<Rightarrow> category set \<Rightarrow> category set" where
  "record_present categories ch present =
     fold (\<lambda>(key, cs) present. if ch \<in> set cs then insert key present else present)
       categories present"

text \<open>One round of the \<^verbatim>\<open>while (chars.length < passwordLength)\<close> loop.\<close>

definition sample_step ::
  "hmac_fn \<Rightarrow> byte list \<Rightarrow> jsstring \<Rightarrow> (category \<times> jsstring) list \<Rightarrow> attempt \<Rightarrow> attempt" where
  "sample_step hmac entropy fullSet categories st =
     (let setLength = length fullSet;
          expanded = grow hmac entropy (st_p st) (st_expanded st);
          byte = unat (expanded ! st_p st);
          p = st_p st + 1
      in if byte \<ge> max_of setLength
         then st\<lparr>st_p := p, st_expanded := expanded\<rparr>
         else (let index = byte mod setLength;
                   ch = fullSet ! index
               in \<lparr>st_chars = st_chars st @ [ch],
                   st_present = record_present categories ch (st_present st),
                   st_p = p, st_expanded = expanded\<rparr>))"

text \<open>The inner loop. \<open>None\<close> is a loop that never ends.\<close>

partial_function (option) sample_loop ::
  "hmac_fn \<Rightarrow> byte list \<Rightarrow> jsstring \<Rightarrow> (category \<times> jsstring) list \<Rightarrow> nat \<Rightarrow> attempt
     \<Rightarrow> attempt option" where
  "sample_loop hmac entropy fullSet categories passwordLength st =
     (if length (st_chars st) < passwordLength
      then sample_loop hmac entropy fullSet categories passwordLength
             (sample_step hmac entropy fullSet categories st)
      else Some st)"

declare sample_loop.simps [code]

text \<open>The state a round of the \<^verbatim>\<open>do\<close> loop starts from, and its coverage check.\<close>

definition attempt_init :: "byte list \<Rightarrow> attempt" where
  "attempt_init expanded = \<lparr>st_chars = [], st_present = {}, st_p = 0, st_expanded = expanded\<rparr>"

definition all_present :: "(category \<times> jsstring) list \<Rightarrow> category set \<Rightarrow> bool" where
  "all_present categories present = list_all (\<lambda>(key, cs). key \<in> present) categories"

text \<open>
  The \<^verbatim>\<open>do { ... } while (true)\<close> loop; \<^verbatim>\<open>chars.join('')\<close> of one-unit strings is the
  list of the units.
\<close>

partial_function (option) coverage_loop ::
  "hmac_fn \<Rightarrow> byte list \<Rightarrow> jsstring \<Rightarrow> (category \<times> jsstring) list \<Rightarrow> nat \<Rightarrow> bool
     \<Rightarrow> byte list \<Rightarrow> jsstring option" where
  "coverage_loop hmac entropy fullSet categories passwordLength requireEach expanded =
     Option.bind
       (sample_loop hmac entropy fullSet categories passwordLength (attempt_init expanded))
       (\<lambda>st. let result = st_chars st
             in if \<not> requireEach then Some result
                else if all_present categories (st_present st) then Some result
                else coverage_loop hmac entropy fullSet categories passwordLength requireEach
                       (st_expanded st))"

declare coverage_loop.simps [code]

text \<open>
  \<open>None\<close>: the call never returns; \<open>Some (Inl e)\<close>: it throws \<open>e\<close>; \<open>Some (Inr s)\<close>: it
  returns the string \<open>s\<close>.
\<close>

definition generatePassword :: "hmac_fn \<Rightarrow> byte list \<Rightarrow> settings \<Rightarrow> (error + jsstring) option" where
  "generatePassword hmac entropy settings =
     (case buildCharacterSets settings of
        Inl err \<Rightarrow> Some (Inl err)
      | Inr (fullSet, categories) \<Rightarrow>
          (let passwordLength = passwordLength_of settings;
               requireEach = requireEachSelected settings;
               neededBytes = passwordLength * 2;
               expanded = expandEntropy hmac entropy neededBytes
           in map_option Inr
                (coverage_loop hmac entropy fullSet categories passwordLength requireEach
                   expanded)))"

section \<open>The runs of \<^verbatim>\<open>generatePassword\<close> as a relation\<close>

text \<open>
  The same code once more, as the relation between a call and an outcome it can have: one
  rule for each way a statement can go. A round of the \<^verbatim>\<open>while\<close> loop stops (the
  candidate is long enough), skips its byte (\<^verbatim>\<open>continue\<close>) or maps it to a character; a
  round of the \<^verbatim>\<open>do\<close> loop leaves by the first \<^verbatim>\<open>break\<close>, by the second, or goes round
  again; the call throws the builder's error or returns the result of the loops. An
  evaluation of the code is a derivation of \<open>generatePassword_run\<close>.
\<close>

inductive sample_run ::
  "hmac_fn \<Rightarrow> byte list \<Rightarrow> jsstring \<Rightarrow> (category \<times> jsstring) list \<Rightarrow> nat \<Rightarrow> attempt \<Rightarrow> attempt
     \<Rightarrow> bool"
  for hmac entropy fullSet categories passwordLength
where
  loop_exit:
    "\<not> length (st_chars st) < passwordLength \<Longrightarrow>
     sample_run hmac entropy fullSet categories passwordLength st st"
| byte_skipped:
    "length (st_chars st) < passwordLength \<Longrightarrow>
     expanded = grow hmac entropy (st_p st) (st_expanded st) \<Longrightarrow>
     byte = unat (expanded ! st_p st) \<Longrightarrow>
     byte \<ge> max_of (length fullSet) \<Longrightarrow>
     sample_run hmac entropy fullSet categories passwordLength
       (st\<lparr>st_p := st_p st + 1, st_expanded := expanded\<rparr>) st' \<Longrightarrow>
     sample_run hmac entropy fullSet categories passwordLength st st'"
| byte_mapped:
    "length (st_chars st) < passwordLength \<Longrightarrow>
     expanded = grow hmac entropy (st_p st) (st_expanded st) \<Longrightarrow>
     byte = unat (expanded ! st_p st) \<Longrightarrow>
     \<not> byte \<ge> max_of (length fullSet) \<Longrightarrow>
     ch = fullSet ! (byte mod length fullSet) \<Longrightarrow>
     sample_run hmac entropy fullSet categories passwordLength
       \<lparr>st_chars = st_chars st @ [ch],
        st_present = record_present categories ch (st_present st),
        st_p = st_p st + 1, st_expanded = expanded\<rparr> st' \<Longrightarrow>
     sample_run hmac entropy fullSet categories passwordLength st st'"

inductive coverage_run ::
  "hmac_fn \<Rightarrow> byte list \<Rightarrow> jsstring \<Rightarrow> (category \<times> jsstring) list \<Rightarrow> nat \<Rightarrow> bool
     \<Rightarrow> byte list \<Rightarrow> jsstring \<Rightarrow> bool"
  for hmac entropy fullSet categories passwordLength requireEach
where
  break_unchecked:
    "sample_run hmac entropy fullSet categories passwordLength (attempt_init expanded) st \<Longrightarrow>
     \<not> requireEach \<Longrightarrow>
     coverage_run hmac entropy fullSet categories passwordLength requireEach expanded
       (st_chars st)"
| break_ok:
    "sample_run hmac entropy fullSet categories passwordLength (attempt_init expanded) st \<Longrightarrow>
     requireEach \<Longrightarrow>
     all_present categories (st_present st) \<Longrightarrow>
     coverage_run hmac entropy fullSet categories passwordLength requireEach expanded
       (st_chars st)"
| try_again:
    "sample_run hmac entropy fullSet categories passwordLength (attempt_init expanded) st \<Longrightarrow>
     requireEach \<Longrightarrow>
     \<not> all_present categories (st_present st) \<Longrightarrow>
     coverage_run hmac entropy fullSet categories passwordLength requireEach
       (st_expanded st) result \<Longrightarrow>
     coverage_run hmac entropy fullSet categories passwordLength requireEach expanded result"

inductive generatePassword_run :: "hmac_fn \<Rightarrow> byte list \<Rightarrow> settings \<Rightarrow> error + jsstring \<Rightarrow> bool"
  for hmac entropy settings
where
  builder_throws:
    "buildCharacterSets settings = Inl err \<Longrightarrow>
     generatePassword_run hmac entropy settings (Inl err)"
| returns_result:
    "buildCharacterSets settings = Inr (fullSet, categories) \<Longrightarrow>
     coverage_run hmac entropy fullSet categories (passwordLength_of settings)
       (requireEachSelected settings)
       (expandEntropy hmac entropy (passwordLength_of settings * 2)) result \<Longrightarrow>
     generatePassword_run hmac entropy settings (Inr result)"

code_pred sample_run .
code_pred coverage_run .
code_pred generatePassword_run .

text \<open>The two components of the builder's result, for statements about a settings object.\<close>

definition fullSet_of :: "settings \<Rightarrow> jsstring" where
  "fullSet_of settings =
     (case buildCharacterSets settings of Inl err \<Rightarrow> [] | Inr (fullSet, categories) \<Rightarrow> fullSet)"

definition categories_of :: "settings \<Rightarrow> (category \<times> jsstring) list" where
  "categories_of settings =
     (case buildCharacterSets settings of Inl err \<Rightarrow> [] | Inr (fullSet, categories) \<Rightarrow> categories)"

section \<open>The \<^verbatim>\<open>/generate\<close> handler\<close>

text \<open>
  The \<^verbatim>\<open>try\<close> block of the handler from the point where the body is parsed and the
  entropy decoded from base64: the length check, the call, and the \<^verbatim>\<open>catch\<close> that turns
  every error into a 400 response carrying its message.
\<close>

datatype json_body = PasswordBody jsstring | ErrorBody string

datatype http_response = Response nat json_body

definition generate_endpoint :: "hmac_fn \<Rightarrow> byte list \<Rightarrow> settings \<Rightarrow> http_response option" where
  "generate_endpoint hmac entropy settings =
     (case (if length entropy \<noteq> 32
            then Some (Inl (Error ''Entropy must be exactly 256 bits (32 bytes)''))
            else generatePassword hmac entropy settings) of
        None \<Rightarrow> None
      | Some (Inl (Error message)) \<Rightarrow> Some (Response 400 (ErrorBody message))
      | Some (Inr password) \<Rightarrow> Some (Response 200 (PasswordBody password)))"

section \<open>A concrete keyed digest for evaluation\<close>

text \<open>
  The theorems below hold for every \<open>hmac\<close>. To run the definitions on concrete inputs a
  keyed function with 32-byte digests is needed; this one adds the bytes of the key and
  of the message to a fixed ramp.
\<close>

definition ramp_hmac :: hmac_fn where
  "ramp_hmac key msg = map (\<lambda>j. of_nat (37 * j) + sum_list key + sum_list msg) [0..<32]"

text \<open>Two seeds of 32 bytes, and the settings the examples use.\<close>

definition zero_seed :: "byte list" where
  "zero_seed = replicate 32 0"

definition seed_35 :: "byte list" where
  "seed_35 = 35 # replicate 31 0"

definition lower_digit :: "int \<Rightarrow> bool \<Rightarrow> settings" where
  "lower_digit n req =
     \<lparr>length_setting = n, includeLowercase = True, includeUppercase = False,
      includeNumbers = True, includeSymbols = False, includeExtendedLatin = False,
      customCharacters = [], requireEachSelected = req\<rparr>"

definition nothing_selected :: settings where
  "nothing_selected =
     \<lparr>length_setting = 8, includeLowercase = False, includeUppercase = False,
      includeNumbers = False, includeSymbols = False, includeExtendedLatin = False,
      customCharacters = [], requireEachSelected = False\<rparr>"

definition oversized :: settings where
  "oversized =
     \<lparr>length_setting = 8, includeLowercase = True, includeUppercase = True,
      includeNumbers = True, includeSymbols = True, includeExtendedLatin = True,
      customCharacters = replicate 67 (of_char (CHR ''x'')), requireEachSelected = False\<rparr>"

section \<open>What the character-set builder returns\<close>

lemma sets_nonempty:
  "sets_lowercase \<noteq> []" "sets_uppercase \<noteq> []" "sets_numbers \<noteq> []"
  "sets_symbols \<noteq> []" "sets_extendedLatin \<noteq> []"
  by (simp_all add: sets_lowercase_def sets_uppercase_def sets_numbers_def sets_symbols_def
      sets_extendedLatin_def js_def upt_rec)

lemma buildCharacterSets_selected:
  "buildCharacterSets s =
     (let selected =
            (if includeLowercase s then [(Lowercase, sets_lowercase)] else []) @
            (if includeUppercase s then [(Uppercase, sets_uppercase)] else []) @
            (if includeNumbers s then [(Numbers, sets_numbers)] else []) @
            (if includeSymbols s then [(Symbols, sets_symbols)] else []) @
            (if includeExtendedLatin s then [(ExtendedLatin, sets_extendedLatin)] else []) @
            (if customCharacters s \<noteq> [] then [(Custom, customCharacters s)] else []);
          fullSet =
            (if includeLowercase s then sets_lowercase else []) @
            (if includeUppercase s then sets_uppercase else []) @
            (if includeNumbers s then sets_numbers else []) @
            (if includeSymbols s then sets_symbols else []) @
            (if includeExtendedLatin s then sets_extendedLatin else []) @
            customCharacters s
      in if fullSet = [] then Inl (Error ''No character categories selected'')
         else Inr (fullSet, selected))"
  by (cases "includeLowercase s"; cases "includeUppercase s"; cases "includeNumbers s";
      cases "includeSymbols s"; cases "includeExtendedLatin s"; cases "customCharacters s = []";
      simp add: buildCharacterSets_def)


lemma buildCharacterSets_Inl:
  "buildCharacterSets s = Inl err \<longleftrightarrow>
     err = Error ''No character categories selected'' \<and>
     \<not> includeLowercase s \<and> \<not> includeUppercase s \<and> \<not> includeNumbers s \<and>
     \<not> includeSymbols s \<and> \<not> includeExtendedLatin s \<and> customCharacters s = []"
  unfolding buildCharacterSets_selected Let_def
  using sets_nonempty by auto

lemma buildCharacterSets_Inr:
  assumes "buildCharacterSets s = Inr (fullSet, categories)"
  shows "fullSet \<noteq> []"
    and "fullSet = concat (map snd categories)"
    and "distinct (map fst categories)"
    and "includeLowercase s \<Longrightarrow> (Lowercase, sets_lowercase) \<in> set categories"
    and "includeUppercase s \<Longrightarrow> (Uppercase, sets_uppercase) \<in> set categories"
    and "includeNumbers s \<Longrightarrow> (Numbers, sets_numbers) \<in> set categories"
    and "includeSymbols s \<Longrightarrow> (Symbols, sets_symbols) \<in> set categories"
    and "includeExtendedLatin s \<Longrightarrow> (ExtendedLatin, sets_extendedLatin) \<in> set categories"
    and "customCharacters s \<noteq> [] \<Longrightarrow> (Custom, customCharacters s) \<in> set categories"
proof -
  let ?sel = "(if includeLowercase s then [(Lowercase, sets_lowercase)] else []) @
            (if includeUppercase s then [(Uppercase, sets_uppercase)] else []) @
            (if includeNumbers s then [(Numbers, sets_numbers)] else []) @
            (if includeSymbols s then [(Symbols, sets_symbols)] else []) @
            (if includeExtendedLatin s then [(ExtendedLatin, sets_extendedLatin)] else []) @
            (if customCharacters s \<noteq> [] then [(Custom, customCharacters s)] else [])"
  let ?full = "(if includeLowercase s then sets_lowercase else []) @
            (if includeUppercase s then sets_uppercase else []) @
            (if includeNumbers s then sets_numbers else []) @
            (if includeSymbols s then sets_symbols else []) @
            (if includeExtendedLatin s then sets_extendedLatin else []) @
            customCharacters s"
  from assms have ne: "?full \<noteq> []" and f: "fullSet = ?full" and c: "categories = ?sel"
    unfolding buildCharacterSets_selected Let_def by (simp_all split: if_splits)
  show "fullSet \<noteq> []" using ne f by simp
  show "fullSet = concat (map snd categories)" unfolding f c by simp
  show "distinct (map fst categories)" unfolding c by simp
  show "includeLowercase s \<Longrightarrow> (Lowercase, sets_lowercase) \<in> set categories" unfolding c by simp
  show "includeUppercase s \<Longrightarrow> (Uppercase, sets_uppercase) \<in> set categories" unfolding c by simp
  show "includeNumbers s \<Longrightarrow> (Numbers, sets_numbers) \<in> set categories" unfolding c by simp
  show "includeSymbols s \<Longrightarrow> (Symbols, sets_symbols) \<in> set categories" unfolding c by simp
  show "includeExtendedLatin s \<Longrightarrow> (ExtendedLatin, sets_extendedLatin) \<in> set categories" unfolding c by simp
  show "customCharacters s \<noteq> [] \<Longrightarrow> (Custom, customCharacters s) \<in> set categories" unfolding c by simp
qed

section \<open>The expander and one round of the inner loop\<close>

lemma length_Buffer_copy: "length (Buffer_copy source target k) = length target"
  by (simp add: Buffer_copy_def)

lemma length_fold_Buffer_copy:
  "length (fold (\<lambda>i out. Buffer_copy (d i) out (g i)) is out) = length out"
  by (induction "is" arbitrary: out) (simp_all add: length_Buffer_copy)

lemma length_expandEntropy: "length (expandEntropy hmac entropy n) = n"
proof -
  have "n \<le> (n + 31) div 32 * 32" by arith
  then show ?thesis
    by (simp add: expandEntropy_def Let_def length_fold_Buffer_copy)
qed

lemma length_grow: "p \<le> length expanded \<Longrightarrow> p < length (grow hmac entropy p expanded)"
  by (simp add: grow_def length_expandEntropy)

lemma grow_append: "\<exists>ext. grow hmac entropy p expanded = expanded @ ext"
  by (simp add: grow_def)

lemma grow_idle: "p < length expanded \<Longrightarrow> grow hmac entropy p expanded = expanded"
  by (simp add: grow_def)

text \<open>What one round of the inner loop does to each variable.\<close>

lemma sample_step_p: "st_p (sample_step hmac entropy fullSet categories st) = st_p st + 1"
  by (simp add: sample_step_def Let_def)

lemma sample_step_expanded:
  "st_expanded (sample_step hmac entropy fullSet categories st)
     = grow hmac entropy (st_p st) (st_expanded st)"
  by (simp add: sample_step_def Let_def)

lemma sample_step_chars:
  "st_chars (sample_step hmac entropy fullSet categories st) =
     (let byte = unat (grow hmac entropy (st_p st) (st_expanded st) ! st_p st)
      in if byte \<ge> max_of (length fullSet) then st_chars st
         else st_chars st @ [fullSet ! (byte mod length fullSet)])"
  by (simp add: sample_step_def Let_def)

lemma sample_step_present:
  "st_present (sample_step hmac entropy fullSet categories st) =
     (let byte = unat (grow hmac entropy (st_p st) (st_expanded st) ! st_p st)
      in if byte \<ge> max_of (length fullSet) then st_present st
         else record_present categories (fullSet ! (byte mod length fullSet)) (st_present st))"
  by (simp add: sample_step_def Let_def)

section \<open>The inner loop as an iteration of its round\<close>

text \<open>
  The inner loop returns exactly what iterating \<open>sample_step\<close> while the candidate is
  short returns. Invariants of the loop are then invariants of the round.
\<close>

lemma sample_loop_Some_while:
  assumes "sample_loop hmac entropy fullSet categories L st = Some y"
  shows "while_option (\<lambda>s. length (st_chars s) < L) (sample_step hmac entropy fullSet categories) st = Some y"
proof (rule sample_loop.raw_induct
    [where P = "\<lambda>hmac entropy fullSet categories L st y.
       while_option (\<lambda>s. length (st_chars s) < L) (sample_step hmac entropy fullSet categories) st = Some y",
     OF _ assms])
  fix f :: "hmac_fn \<Rightarrow> byte list \<Rightarrow> jsstring \<Rightarrow> (category \<times> jsstring) list \<Rightarrow> nat \<Rightarrow> attempt \<Rightarrow> attempt option"
  fix hmac entropy fullSet categories L st y
  assume IH: "\<And>hmac entropy fullSet categories L st y. f hmac entropy fullSet categories L st = Some y \<Longrightarrow>
     while_option (\<lambda>s. length (st_chars s) < L) (sample_step hmac entropy fullSet categories) st = Some y"
  assume eq: "(if length (st_chars st) < L then f hmac entropy fullSet categories L (sample_step hmac entropy fullSet categories st) else Some st) = Some y"
  show "while_option (\<lambda>s. length (st_chars s) < L) (sample_step hmac entropy fullSet categories) st = Some y"
  proof (cases "length (st_chars st) < L")
    case True
    with eq IH show ?thesis
      using while_option_unfold [of "\<lambda>s. length (st_chars s) < L"
          "sample_step hmac entropy fullSet categories" st]
      by simp
  next
    case False
    with eq show ?thesis
      using while_option_unfold [of "\<lambda>s. length (st_chars s) < L"
          "sample_step hmac entropy fullSet categories" st]
      by simp
  qed
qed

lemma sample_loop_funpow:
  "\<not> length (st_chars ((sample_step hmac entropy fullSet categories ^^ k) st)) < L \<Longrightarrow>
   \<forall>i<k. length (st_chars ((sample_step hmac entropy fullSet categories ^^ i) st)) < L \<Longrightarrow>
   sample_loop hmac entropy fullSet categories L st
     = Some ((sample_step hmac entropy fullSet categories ^^ k) st)"
proof (induction k arbitrary: st)
  case 0
  then show ?case by (simp add: sample_loop.simps)
next
  case (Suc k)
  let ?c = "sample_step hmac entropy fullSet categories"
  from Suc.prems(2) have b0: "length (st_chars st) < L" by force
  have "sample_loop hmac entropy fullSet categories L (?c st) = Some ((?c ^^ k) (?c st))"
  proof (rule Suc.IH)
    show "\<not> length (st_chars ((?c ^^ k) (?c st))) < L"
      using Suc.prems(1) by (simp add: funpow_swap1)
    show "\<forall>i<k. length (st_chars ((?c ^^ i) (?c st))) < L"
    proof (intro allI impI)
      fix i assume "i < k"
      then have "Suc i < Suc k" by simp
      with Suc.prems(2) have "length (st_chars ((?c ^^ Suc i) st)) < L" by blast
      then show "length (st_chars ((?c ^^ i) (?c st))) < L" by (simp add: funpow_swap1)
    qed
  qed
  with b0 show ?case
    using sample_loop.simps [of hmac entropy fullSet categories L st]
    by (simp add: funpow_swap1)
qed

lemma sample_loop_while:
  "sample_loop hmac entropy fullSet categories L st =
   while_option (\<lambda>s. length (st_chars s) < L) (sample_step hmac entropy fullSet categories) st"
proof (cases "while_option (\<lambda>s. length (st_chars s) < L) (sample_step hmac entropy fullSet categories) st")
  case None
  show ?thesis
  proof (cases "sample_loop hmac entropy fullSet categories L st")
    case sl: None
    with None show ?thesis by simp
  next
    case (Some y)
    from sample_loop_Some_while [OF this] None show ?thesis by simp
  qed
next
  case (Some t)
  let ?c = "sample_step hmac entropy fullSet categories"
  let ?Q = "\<lambda>k. \<not> length (st_chars ((?c ^^ k) st)) < L"
  from Some have ex: "\<exists>k. ?Q k" and t: "t = (?c ^^ (LEAST k. ?Q k)) st"
    by (auto simp: while_option_def split: if_splits)
  from ex have "?Q (LEAST k. ?Q k)" by (rule LeastI_ex)
  moreover have "\<forall>i<LEAST k. ?Q k. length (st_chars ((?c ^^ i) st)) < L"
    using not_less_Least by blast
  ultimately have "sample_loop hmac entropy fullSet categories L st = Some t"
    unfolding t by (rule sample_loop_funpow)
  with Some show ?thesis by simp
qed

section \<open>Invariants of one candidate\<close>

lemma sample_loop_rule:
  assumes run: "sample_loop hmac entropy fullSet categories L st = Some y"
    and init: "I st"
    and step: "\<And>s. I s \<Longrightarrow> length (st_chars s) < L \<Longrightarrow> I (sample_step hmac entropy fullSet categories s)"
  shows "I y"
proof -
  from run have "while_option (\<lambda>s. length (st_chars s) < L)
      (sample_step hmac entropy fullSet categories) st = Some y"
    by (simp add: sample_loop_while)
  from while_option_rule [where P = I, OF _ this init] step show ?thesis by blast
qed

lemma sample_loop_stop:
  assumes "sample_loop hmac entropy fullSet categories L st = Some y"
  shows "\<not> length (st_chars y) < L"
  using assms while_option_stop [of "\<lambda>s. length (st_chars s) < L"
      "sample_step hmac entropy fullSet categories" st y]
  by (simp add: sample_loop_while)

lemma attempt_length:
  assumes "sample_loop hmac entropy fullSet categories L (attempt_init expanded) = Some st"
  shows "length (st_chars st) = L"
proof -
  have "length (st_chars st) \<le> L"
  proof (rule sample_loop_rule [OF assms, where I = "\<lambda>s::attempt. length (st_chars s) \<le> L"])
    show "length (st_chars (attempt_init expanded)) \<le> L" by (simp add: attempt_init_def)
  next
    fix s :: attempt assume "length (st_chars s) < L"
    then show "length (st_chars (sample_step hmac entropy fullSet categories s)) \<le> L"
      by (simp add: sample_step_chars Let_def)
  qed
  with sample_loop_stop [OF assms] show ?thesis by simp
qed

lemma attempt_consumes:
  assumes "sample_loop hmac entropy fullSet categories L (attempt_init expanded) = Some st"
  shows "length (st_chars st) \<le> st_p st"
proof (rule sample_loop_rule [OF assms, where I = "\<lambda>s::attempt. length (st_chars s) \<le> st_p s"])
  show "length (st_chars (attempt_init expanded)) \<le> st_p (attempt_init expanded)"
    by (simp add: attempt_init_def)
next
  fix s :: attempt assume "length (st_chars s) \<le> st_p s"
  then show "length (st_chars (sample_step hmac entropy fullSet categories s))
      \<le> st_p (sample_step hmac entropy fullSet categories s)"
    by (simp add: sample_step_chars sample_step_p Let_def)
qed

text \<open>
  Every read \<^verbatim>\<open>expanded[p++]\<close> of a round is inside the buffer: \<open>p\<close> never passes its end,
  and the buffer is grown by 32 bytes before a read at its end.
\<close>

lemma attempt_reads_in_range:
  assumes "sample_loop hmac entropy fullSet categories L (attempt_init expanded) = Some st"
  shows "st_p st \<le> length (st_expanded st)"
proof (rule sample_loop_rule [OF assms, where I = "\<lambda>s::attempt. st_p s \<le> length (st_expanded s)"])
  show "st_p (attempt_init expanded) \<le> length (st_expanded (attempt_init expanded))"
    by (simp add: attempt_init_def)
next
  fix s :: attempt assume "st_p s \<le> length (st_expanded s)"
  then have "st_p s < length (grow hmac entropy (st_p s) (st_expanded s))"
    by (rule length_grow)
  then show "st_p (sample_step hmac entropy fullSet categories s)
      \<le> length (st_expanded (sample_step hmac entropy fullSet categories s))"
    by (simp add: sample_step_p sample_step_expanded)
qed

lemma attempt_alphabet:
  assumes "sample_loop hmac entropy fullSet categories L (attempt_init expanded) = Some st"
    and "fullSet \<noteq> []"
  shows "set (st_chars st) \<subseteq> set fullSet"
proof (rule sample_loop_rule [OF assms(1), where I = "\<lambda>s::attempt. set (st_chars s) \<subseteq> set fullSet"])
  show "set (st_chars (attempt_init expanded)) \<subseteq> set fullSet" by (simp add: attempt_init_def)
next
  fix s :: attempt assume "set (st_chars s) \<subseteq> set fullSet"
  with assms(2) show "set (st_chars (sample_step hmac entropy fullSet categories s)) \<subseteq> set fullSet"
    by (simp add: sample_step_chars Let_def)
qed

lemma record_present_eq:
  "record_present categories ch present =
     present \<union> {key. \<exists>cs. (key, cs) \<in> set categories \<and> ch \<in> set cs}"
  unfolding record_present_def
proof (induction categories arbitrary: present)
  case Nil
  show ?case by simp
next
  case (Cons kc categories)
  obtain k c where kc: "kc = (k, c)" by (cases kc)
  show ?case
    unfolding kc by (simp add: Cons.IH) blast
qed

lemma record_present_cases:
  "key \<in> record_present categories ch present \<Longrightarrow>
     key \<in> present \<or> (\<exists>cs. (key, cs) \<in> set categories \<and> ch \<in> set cs)"
  by (simp add: record_present_eq)

lemma attempt_present:
  assumes "sample_loop hmac entropy fullSet categories L (attempt_init expanded) = Some st"
    and "key \<in> st_present st"
  shows "\<exists>cs. (key, cs) \<in> set categories \<and> (\<exists>ch\<in>set (st_chars st). ch \<in> set cs)"
proof -
  let ?I = "\<lambda>s::attempt. \<forall>key\<in>st_present s. \<exists>cs. (key, cs) \<in> set categories \<and> (\<exists>ch\<in>set (st_chars s). ch \<in> set cs)"
  have "?I st"
  proof (rule sample_loop_rule [OF assms(1), where I = ?I])
    show "?I (attempt_init expanded)" by (simp add: attempt_init_def)
  next
    fix s :: attempt assume I: "?I s"
    show "?I (sample_step hmac entropy fullSet categories s)"
    proof
      fix key assume k: "key \<in> st_present (sample_step hmac entropy fullSet categories s)"
      let ?byte = "unat (grow hmac entropy (st_p s) (st_expanded s) ! st_p s)"
      show "\<exists>cs. (key, cs) \<in> set categories \<and>
          (\<exists>ch\<in>set (st_chars (sample_step hmac entropy fullSet categories s)). ch \<in> set cs)"
      proof (cases "?byte \<ge> max_of (length fullSet)")
        case True
        with k I show ?thesis by (simp add: sample_step_chars sample_step_present Let_def)
      next
        case False
        with k have "key \<in> record_present categories (fullSet ! (?byte mod length fullSet)) (st_present s)"
          by (simp add: sample_step_present Let_def)
        from record_present_cases [OF this]
        have "key \<in> st_present s \<or>
            (\<exists>cs. (key, cs) \<in> set categories \<and> fullSet ! (?byte mod length fullSet) \<in> set cs)" .
        moreover have "st_chars (sample_step hmac entropy fullSet categories s)
            = st_chars s @ [fullSet ! (?byte mod length fullSet)]"
          using False by (simp add: sample_step_chars Let_def)
        ultimately show ?thesis using I by fastforce
      qed
    qed
  qed
  with assms(2) show ?thesis by blast
qed

section \<open>A round of the outer loop replays the one before\<close>

text \<open>
  Every round of the \<^verbatim>\<open>do\<close> loop starts again at \<open>p = 0\<close> on the buffer the round
  before left behind. That buffer only grew at its end, so the new round reads the same
  bytes at the same positions and assembles the same candidate.
\<close>

lemma sample_step_on_longer_buffer:
  assumes p: "st_p st \<le> length (st_expanded st)"
    and E: "E = st_expanded (sample_step hmac entropy fullSet categories st) @ ext"
  shows "sample_step hmac entropy fullSet categories (st\<lparr>st_expanded := E\<rparr>)
       = (sample_step hmac entropy fullSet categories st)\<lparr>st_expanded := E\<rparr>"
proof -
  let ?G = "grow hmac entropy (st_p st) (st_expanded st)"
  have G: "E = ?G @ ext" using E by (simp add: sample_step_expanded)
  have lt: "st_p st < length ?G" using p by (rule length_grow)
  then have "st_p st < length E" using G by simp
  then have idle: "grow hmac entropy (st_p st) E = E" by (rule grow_idle)
  have byte: "E ! st_p st = ?G ! st_p st" using lt G by (simp add: nth_append)
  show ?thesis
    by (simp add: sample_step_def Let_def idle byte)
qed

lemma sample_loop_on_final_buffer:
  assumes "sample_loop hmac entropy fullSet categories L st = Some y"
  shows "(\<exists>ext. st_expanded y = st_expanded st @ ext) \<and>
         (st_p st \<le> length (st_expanded st) \<longrightarrow>
            sample_loop hmac entropy fullSet categories L (st\<lparr>st_expanded := st_expanded y\<rparr>) = Some y)"
proof (rule sample_loop.raw_induct
    [where P = "\<lambda>hmac entropy fullSet categories L st y.
        (\<exists>ext. st_expanded y = st_expanded st @ ext) \<and>
         (st_p st \<le> length (st_expanded st) \<longrightarrow>
            sample_loop hmac entropy fullSet categories L (st\<lparr>st_expanded := st_expanded y\<rparr>) = Some y)",
     OF _ assms])
  fix f :: "hmac_fn \<Rightarrow> byte list \<Rightarrow> jsstring \<Rightarrow> (category \<times> jsstring) list \<Rightarrow> nat \<Rightarrow> attempt \<Rightarrow> attempt option"
  fix hmac entropy fullSet categories L st y
  let ?c = "sample_step hmac entropy fullSet categories"
  assume IH: "\<And>hmac entropy fullSet categories L st y.
     f hmac entropy fullSet categories L st = Some y \<Longrightarrow>
       (\<exists>ext. st_expanded y = st_expanded st @ ext) \<and>
         (st_p st \<le> length (st_expanded st) \<longrightarrow>
            sample_loop hmac entropy fullSet categories L (st\<lparr>st_expanded := st_expanded y\<rparr>) = Some y)"
  assume eq: "(if length (st_chars st) < L then f hmac entropy fullSet categories L (?c st) else Some st) = Some y"
  show "(\<exists>ext. st_expanded y = st_expanded st @ ext) \<and>
         (st_p st \<le> length (st_expanded st) \<longrightarrow>
            sample_loop hmac entropy fullSet categories L (st\<lparr>st_expanded := st_expanded y\<rparr>) = Some y)"
  proof (cases "length (st_chars st) < L")
    case False
    with eq have "y = st" by simp
    with False show ?thesis
      using sample_loop.simps [of hmac entropy fullSet categories L st] by simp
  next
    case True
    with eq have "f hmac entropy fullSet categories L (?c st) = Some y" by simp
    from IH [OF this] obtain ext where
      ext: "st_expanded y = st_expanded (?c st) @ ext" and
      run: "st_p (?c st) \<le> length (st_expanded (?c st)) \<Longrightarrow>
            sample_loop hmac entropy fullSet categories L ((?c st)\<lparr>st_expanded := st_expanded y\<rparr>) = Some y"
      by blast
    obtain ext0 where "st_expanded (?c st) = st_expanded st @ ext0"
      using grow_append [of hmac entropy "st_p st" "st_expanded st"]
      by (auto simp: sample_step_expanded)
    with ext have pre: "\<exists>ext. st_expanded y = st_expanded st @ ext" by simp
    have "sample_loop hmac entropy fullSet categories L (st\<lparr>st_expanded := st_expanded y\<rparr>) = Some y"
      if p: "st_p st \<le> length (st_expanded st)"
    proof -
      have "st_p (?c st) \<le> length (st_expanded (?c st))"
        using length_grow [OF p, of hmac entropy]
        by (simp add: sample_step_p sample_step_expanded)
      then have r: "sample_loop hmac entropy fullSet categories L ((?c st)\<lparr>st_expanded := st_expanded y\<rparr>) = Some y"
        by (rule run)
      have "?c (st\<lparr>st_expanded := st_expanded y\<rparr>) = (?c st)\<lparr>st_expanded := st_expanded y\<rparr>"
        using p ext by (rule sample_step_on_longer_buffer)
      with r True show ?thesis
        using sample_loop.simps [of hmac entropy fullSet categories L "st\<lparr>st_expanded := st_expanded y\<rparr>"]
        by simp
    qed
    with pre show ?thesis by blast
  qed
qed

lemma attempt_replay:
  assumes "sample_loop hmac entropy fullSet categories L (attempt_init expanded) = Some st"
  shows "sample_loop hmac entropy fullSet categories L (attempt_init (st_expanded st)) = Some st"
proof -
  have "(attempt_init expanded)\<lparr>st_expanded := st_expanded st\<rparr> = attempt_init (st_expanded st)"
    by (simp add: attempt_init_def)
  moreover have "st_p (attempt_init expanded) \<le> length (st_expanded (attempt_init expanded))"
    by (simp add: attempt_init_def)
  ultimately show ?thesis
    using sample_loop_on_final_buffer [OF assms] by simp
qed

text \<open>
  So a round that fails the coverage check is followed by rounds that fail it in the same
  way: the outer loop cannot return from such a buffer.
\<close>

lemma coverage_loop_failed_round:
  assumes "coverage_loop hmac entropy fullSet categories L requireEach expanded = Some r"
  shows "\<not> (requireEach \<and>
            (\<exists>st. sample_loop hmac entropy fullSet categories L (attempt_init expanded) = Some st \<and>
                  \<not> all_present categories (st_present st)))"
proof (rule coverage_loop.raw_induct
    [where P = "\<lambda>hmac entropy fullSet categories L requireEach expanded r.
        \<not> (requireEach \<and>
            (\<exists>st. sample_loop hmac entropy fullSet categories L (attempt_init expanded) = Some st \<and>
                  \<not> all_present categories (st_present st)))",
     OF _ assms])
  fix f :: "hmac_fn \<Rightarrow> byte list \<Rightarrow> jsstring \<Rightarrow> (category \<times> jsstring) list \<Rightarrow> nat \<Rightarrow> bool \<Rightarrow> byte list \<Rightarrow> jsstring option"
  fix hmac entropy fullSet categories L requireEach expanded r
  assume IH: "\<And>hmac entropy fullSet categories L requireEach expanded r.
     f hmac entropy fullSet categories L requireEach expanded = Some r \<Longrightarrow>
       \<not> (requireEach \<and>
            (\<exists>st. sample_loop hmac entropy fullSet categories L (attempt_init expanded) = Some st \<and>
                  \<not> all_present categories (st_present st)))"
  assume eq: "Option.bind (sample_loop hmac entropy fullSet categories L (attempt_init expanded))
       (\<lambda>st. let result = st_chars st
             in if \<not> requireEach then Some result
                else if all_present categories (st_present st) then Some result
                else f hmac entropy fullSet categories L requireEach (st_expanded st)) = Some r"
  show "\<not> (requireEach \<and>
            (\<exists>st. sample_loop hmac entropy fullSet categories L (attempt_init expanded) = Some st \<and>
                  \<not> all_present categories (st_present st)))"
  proof
    assume "requireEach \<and>
            (\<exists>st. sample_loop hmac entropy fullSet categories L (attempt_init expanded) = Some st \<and>
                  \<not> all_present categories (st_present st))"
    then obtain st where req: requireEach
      and st: "sample_loop hmac entropy fullSet categories L (attempt_init expanded) = Some st"
      and bad: "\<not> all_present categories (st_present st)"
      by blast
    from eq st req bad
    have "f hmac entropy fullSet categories L requireEach (st_expanded st) = Some r"
      by (simp add: Let_def)
    from IH [OF this] req
    have "\<not> (\<exists>st'. sample_loop hmac entropy fullSet categories L (attempt_init (st_expanded st)) = Some st' \<and>
                  \<not> all_present categories (st_present st'))"
      by simp
    moreover have "sample_loop hmac entropy fullSet categories L (attempt_init (st_expanded st)) = Some st"
      using st by (rule attempt_replay)
    ultimately show False using bad by blast
  qed
qed

text \<open>
  Hence the outer loop is decided by its first round: it returns that round's candidate
  when the coverage check is off or passes, and never returns otherwise.
\<close>

lemma coverage_loop_first_round:
  "coverage_loop hmac entropy fullSet categories L requireEach expanded =
     (case sample_loop hmac entropy fullSet categories L (attempt_init expanded) of
        None \<Rightarrow> None
      | Some st \<Rightarrow>
          if \<not> requireEach \<or> all_present categories (st_present st) then Some (st_chars st)
          else None)"
proof (cases "sample_loop hmac entropy fullSet categories L (attempt_init expanded)")
  case None
  then show ?thesis
    using coverage_loop.simps [of hmac entropy fullSet categories L requireEach expanded]
    by simp
next
  case (Some st)
  show ?thesis
  proof (cases "\<not> requireEach \<or> all_present categories (st_present st)")
    case True
    with Some show ?thesis
      using coverage_loop.simps [of hmac entropy fullSet categories L requireEach expanded]
      by (auto simp: Let_def)
  next
    case False
    have "coverage_loop hmac entropy fullSet categories L requireEach expanded = None"
    proof (cases "coverage_loop hmac entropy fullSet categories L requireEach expanded")
      case None
      then show ?thesis .
    next
      case (Some r)
      from coverage_loop_failed_round [OF this] False \<open>sample_loop hmac entropy fullSet categories L (attempt_init expanded) = Some st\<close>
      show ?thesis by blast
    qed
    with Some False show ?thesis by simp
  qed
qed

section \<open>What a call of \<^verbatim>\<open>generatePassword\<close> that returns has done\<close>

lemma generatePassword_returns:
  assumes "generatePassword hmac entropy s = Some (Inr pw)"
  shows "\<exists>fullSet categories st.
           buildCharacterSets s = Inr (fullSet, categories) \<and>
           sample_loop hmac entropy fullSet categories (passwordLength_of s)
             (attempt_init (expandEntropy hmac entropy (passwordLength_of s * 2))) = Some st \<and>
           pw = st_chars st \<and>
           (requireEachSelected s \<longrightarrow> all_present categories (st_present st))"
proof (cases "buildCharacterSets s")
  case (Inl err)
  with assms show ?thesis by (simp add: generatePassword_def)
next
  case (Inr fc)
  obtain fullSet categories where fc: "fc = (fullSet, categories)" by (cases fc)
  from assms Inr fc show ?thesis
    by (auto simp: generatePassword_def Let_def coverage_loop_first_round
        split: option.splits if_splits)
qed

lemma passwordLength_of_pos: "0 < passwordLength_of s"
  by (simp add: passwordLength_of_def)

lemma fullSet_of_Inr: "buildCharacterSets s = Inr (fullSet, categories) \<Longrightarrow> fullSet_of s = fullSet"
  by (simp add: fullSet_of_def)

lemma all_present_member:
  "all_present categories present \<Longrightarrow> (key, cs) \<in> set categories \<Longrightarrow> key \<in> present"
  by (auto simp: all_present_def list_all_iff)

lemma covered_category:
  assumes run: "sample_loop hmac entropy fullSet categories L (attempt_init expanded) = Some st"
    and ok: "all_present categories (st_present st)"
    and dist: "distinct (map fst categories)"
    and mem: "(key, cs) \<in> set categories"
  shows "\<exists>ch\<in>set (st_chars st). ch \<in> set cs"
proof -
  from all_present_member [OF ok mem] have "key \<in> st_present st" .
  from attempt_present [OF run this] obtain cs' where
    cs': "(key, cs') \<in> set categories" and ex: "\<exists>ch\<in>set (st_chars st). ch \<in> set cs'"
    by blast
  from dist mem cs' have "cs' = cs" by (meson eq_key_imp_eq_value)
  with ex show ?thesis by simp
qed

text \<open>The rejection threshold is the largest multiple of the alphabet size up to 256.\<close>

lemma max_of_largest_multiple:
  assumes "0 < m"
  shows "m dvd max_of m" and "max_of m \<le> 256" and "m dvd k \<Longrightarrow> k \<le> 256 \<Longrightarrow> k \<le> max_of m"
proof -
  have eq: "max_of m = 256 div m * m"
    unfolding max_of_def using div_mult_mod_eq [of 256 m] by linarith
  show "m dvd max_of m" by (simp add: eq)
  show "max_of m \<le> 256" by (simp add: max_of_def)
  show "k \<le> max_of m" if "m dvd k" "k \<le> 256"
  proof -
    from that(1) obtain q where q: "k = m * q" by (auto elim: dvdE)
    with that(2) assms have "q \<le> 256 div m"
      by (simp add: less_eq_div_iff_mult_less_eq mult.commute)
    then have "q * m \<le> 256 div m * m" by (rule mult_le_mono1)
    with q show ?thesis by (simp add: eq mult.commute)
  qed
qed

text \<open>An alphabet of more than 256 characters: every byte is rejected.\<close>

lemma categories_of_Inr: "buildCharacterSets s = Inr (fullSet, categories) \<Longrightarrow> categories_of s = categories"
  by (simp add: categories_of_def)

lemma max_of_oversized: "256 < m \<Longrightarrow> max_of m = 0"
  by (simp add: max_of_def)

lemma sample_step_oversized:
  "256 < length fullSet \<Longrightarrow>
     st_chars (sample_step hmac entropy fullSet categories st) = st_chars st"
  by (simp add: sample_step_chars max_of_oversized Let_def)

lemma sample_loop_oversized:
  assumes "256 < length fullSet" and "0 < L"
  shows "sample_loop hmac entropy fullSet categories L (attempt_init expanded) = None"
proof (cases "sample_loop hmac entropy fullSet categories L (attempt_init expanded)")
  case None
  then show ?thesis .
next
  case (Some st)
  have "st_chars st = []"
  proof (rule sample_loop_rule [OF Some, where I = "\<lambda>s::attempt. st_chars s = []"])
    show "st_chars (attempt_init expanded) = []" by (simp add: attempt_init_def)
  next
    fix s :: attempt assume "st_chars s = []"
    then show "st_chars (sample_step hmac entropy fullSet categories s) = []"
      by (simp add: sample_step_oversized [OF assms(1)])
  qed
  with sample_loop_stop [OF Some] assms(2) show ?thesis by simp
qed

section \<open>The relation and the function describe the same runs\<close>

text \<open>A round of either loop has one outcome.\<close>

lemma sample_run_deterministic:
  assumes "sample_run hmac entropy fullSet categories L st y1"
    and "sample_run hmac entropy fullSet categories L st y2"
  shows "y1 = y2"
  using assms
proof (induction arbitrary: y2 rule: sample_run.induct)
  case (loop_exit st)
  from loop_exit.prems loop_exit.hyps show ?case
    by (cases rule: sample_run.cases) simp_all
next
  case (byte_skipped st expanded byte st')
  from byte_skipped.prems show ?case
  proof (cases rule: sample_run.cases)
    case loop_exit
    with byte_skipped.hyps show ?thesis by simp
  next
    case (byte_skipped expanded2 byte2)
    with byte_skipped.hyps byte_skipped.IH show ?thesis by simp
  next
    case (byte_mapped expanded2 byte2 ch2)
    with byte_skipped.hyps show ?thesis by simp
  qed
next
  case (byte_mapped st expanded byte ch st')
  from byte_mapped.prems show ?case
  proof (cases rule: sample_run.cases)
    case loop_exit
    with byte_mapped.hyps show ?thesis by simp
  next
    case (byte_skipped expanded2 byte2)
    with byte_mapped.hyps show ?thesis by simp
  next
    case (byte_mapped expanded2 byte2 ch2)
    with byte_mapped.hyps byte_mapped.IH show ?thesis by simp
  qed
qed

lemma coverage_run_deterministic:
  assumes "coverage_run hmac entropy fullSet categories L req expanded r1"
    and "coverage_run hmac entropy fullSet categories L req expanded r2"
  shows "r1 = r2"
  using assms
proof (induction arbitrary: r2 rule: coverage_run.induct)
  case (break_unchecked expanded st)
  from break_unchecked.prems show ?case
  proof (cases rule: coverage_run.cases)
    case (break_unchecked st2)
    with sample_run_deterministic [OF break_unchecked.hyps(1)] show ?thesis by simp
  next
    case (break_ok st2)
    with break_unchecked.hyps show ?thesis by simp
  next
    case (try_again st2)
    with break_unchecked.hyps show ?thesis by simp
  qed
next
  case (break_ok expanded st)
  from break_ok.prems show ?case
  proof (cases rule: coverage_run.cases)
    case (break_unchecked st2)
    with break_ok.hyps show ?thesis by simp
  next
    case (break_ok st2)
    with sample_run_deterministic [OF break_ok.hyps(1)] show ?thesis by simp
  next
    case (try_again st2)
    with sample_run_deterministic [OF break_ok.hyps(1)] break_ok.hyps show ?thesis by blast
  qed
next
  case (try_again expanded st result)
  from try_again.prems show ?case
  proof (cases rule: coverage_run.cases)
    case (break_unchecked st2)
    with try_again.hyps show ?thesis by simp
  next
    case (break_ok st2)
    with sample_run_deterministic [OF try_again.hyps(1)] try_again.hyps show ?thesis by blast
  next
    case (try_again st2)
    from sample_run_deterministic [OF try_again.hyps(1) try_again(1)] have "st2 = st" by simp
    with try_again(4) try_again.IH show ?thesis by simp
  qed
qed

text \<open>
  A derivation exists exactly when the function of the sections above returns that
  outcome, so statements about the one carry over to the other.
\<close>

lemma sample_run_imp_loop:
  assumes "sample_run hmac entropy fullSet categories L st y"
  shows "sample_loop hmac entropy fullSet categories L st = Some y"
  using assms
proof (induction rule: sample_run.induct)
  case (loop_exit st)
  then show ?case
    using sample_loop.simps [of hmac entropy fullSet categories L st] by simp
next
  case (byte_skipped st expanded byte st')
  then have "sample_step hmac entropy fullSet categories st
      = st\<lparr>st_p := st_p st + 1, st_expanded := expanded\<rparr>"
    by (simp add: sample_step_def Let_def)
  with byte_skipped show ?case
    using sample_loop.simps [of hmac entropy fullSet categories L st] by simp
next
  case (byte_mapped st expanded byte ch st')
  then have "sample_step hmac entropy fullSet categories st
      = \<lparr>st_chars = st_chars st @ [ch],
         st_present = record_present categories ch (st_present st),
         st_p = st_p st + 1, st_expanded = expanded\<rparr>"
    by (simp add: sample_step_def Let_def)
  with byte_mapped show ?case
    using sample_loop.simps [of hmac entropy fullSet categories L st] by simp
qed

lemma sample_run_step:
  assumes "length (st_chars st) < L"
    and "sample_run hmac entropy fullSet categories L (sample_step hmac entropy fullSet categories st) y"
  shows "sample_run hmac entropy fullSet categories L st y"
proof (cases "unat (grow hmac entropy (st_p st) (st_expanded st) ! st_p st) \<ge> max_of (length fullSet)")
  case True
  then have "sample_step hmac entropy fullSet categories st
      = st\<lparr>st_p := st_p st + 1, st_expanded := grow hmac entropy (st_p st) (st_expanded st)\<rparr>"
    by (simp add: sample_step_def Let_def)
  with assms(2) have "sample_run hmac entropy fullSet categories L
      (st\<lparr>st_p := st_p st + 1, st_expanded := grow hmac entropy (st_p st) (st_expanded st)\<rparr>) y"
    by simp
  from sample_run.byte_skipped [OF assms(1) refl refl True this] show ?thesis .
next
  case False
  let ?ch = "fullSet ! (unat (grow hmac entropy (st_p st) (st_expanded st) ! st_p st) mod length fullSet)"
  from False have "sample_step hmac entropy fullSet categories st
      = \<lparr>st_chars = st_chars st @ [?ch],
         st_present = record_present categories ?ch (st_present st),
         st_p = st_p st + 1, st_expanded = grow hmac entropy (st_p st) (st_expanded st)\<rparr>"
    by (simp add: sample_step_def Let_def)
  with assms(2) have "sample_run hmac entropy fullSet categories L
      \<lparr>st_chars = st_chars st @ [?ch],
         st_present = record_present categories ?ch (st_present st),
         st_p = st_p st + 1, st_expanded = grow hmac entropy (st_p st) (st_expanded st)\<rparr> y"
    by simp
  from sample_run.byte_mapped [OF assms(1) refl refl False refl this] show ?thesis .
qed

lemma sample_loop_imp_run:
  assumes "sample_loop hmac entropy fullSet categories L st = Some y"
  shows "sample_run hmac entropy fullSet categories L st y"
proof (rule sample_loop.raw_induct
    [where P = "\<lambda>hmac entropy fullSet categories L st y.
        sample_run hmac entropy fullSet categories L st y", OF _ assms])
  fix f :: "hmac_fn \<Rightarrow> byte list \<Rightarrow> jsstring \<Rightarrow> (category \<times> jsstring) list \<Rightarrow> nat \<Rightarrow> attempt \<Rightarrow> attempt option"
  fix hmac entropy fullSet categories L st y
  assume IH: "\<And>hmac entropy fullSet categories L st y.
     f hmac entropy fullSet categories L st = Some y \<Longrightarrow>
       sample_run hmac entropy fullSet categories L st y"
  assume eq: "(if length (st_chars st) < L
      then f hmac entropy fullSet categories L (sample_step hmac entropy fullSet categories st)
      else Some st) = Some y"
  show "sample_run hmac entropy fullSet categories L st y"
  proof (cases "length (st_chars st) < L")
    case True
    with eq have "f hmac entropy fullSet categories L (sample_step hmac entropy fullSet categories st) = Some y"
      by simp
    from sample_run_step [OF True IH [OF this]] show ?thesis .
  next
    case False
    with eq have "y = st" by simp
    with False show ?thesis by (simp add: sample_run.loop_exit)
  qed
qed

lemma sample_run_iff:
  "sample_run hmac entropy fullSet categories L st y
     \<longleftrightarrow> sample_loop hmac entropy fullSet categories L st = Some y"
  using sample_run_imp_loop sample_loop_imp_run by blast

lemma coverage_run_imp_loop:
  assumes "coverage_run hmac entropy fullSet categories L req expanded r"
  shows "coverage_loop hmac entropy fullSet categories L req expanded = Some r"
  using assms
proof (induction rule: coverage_run.induct)
  case (break_unchecked expanded st)
  then show ?case
    using coverage_loop.simps [of hmac entropy fullSet categories L req expanded]
    by (simp add: sample_run_iff Let_def)
next
  case (break_ok expanded st)
  then show ?case
    using coverage_loop.simps [of hmac entropy fullSet categories L req expanded]
    by (simp add: sample_run_iff Let_def)
next
  case (try_again expanded st result)
  then show ?case
    using coverage_loop.simps [of hmac entropy fullSet categories L req expanded]
    by (simp add: sample_run_iff Let_def)
qed

lemma coverage_loop_imp_run:
  assumes "coverage_loop hmac entropy fullSet categories L req expanded = Some r"
  shows "coverage_run hmac entropy fullSet categories L req expanded r"
proof (rule coverage_loop.raw_induct
    [where P = "\<lambda>hmac entropy fullSet categories L req expanded r.
        coverage_run hmac entropy fullSet categories L req expanded r", OF _ assms])
  fix f :: "hmac_fn \<Rightarrow> byte list \<Rightarrow> jsstring \<Rightarrow> (category \<times> jsstring) list \<Rightarrow> nat \<Rightarrow> bool \<Rightarrow> byte list \<Rightarrow> jsstring option"
  fix hmac entropy fullSet categories L req expanded r
  assume IH: "\<And>hmac entropy fullSet categories L req expanded r.
     f hmac entropy fullSet categories L req expanded = Some r \<Longrightarrow>
       coverage_run hmac entropy fullSet categories L req expanded r"
  assume eq: "Option.bind (sample_loop hmac entropy fullSet categories L (attempt_init expanded))
       (\<lambda>st. let result = st_chars st
             in if \<not> req then Some result
                else if all_present categories (st_present st) then Some result
                else f hmac entropy fullSet categories L req (st_expanded st)) = Some r"
  then obtain st where
    st: "sample_loop hmac entropy fullSet categories L (attempt_init expanded) = Some st" and
    rest: "(if \<not> req then Some (st_chars st)
            else if all_present categories (st_present st) then Some (st_chars st)
            else f hmac entropy fullSet categories L req (st_expanded st)) = Some r"
    by (cases "sample_loop hmac entropy fullSet categories L (attempt_init expanded)")
       (simp_all add: Let_def)
  from st have run: "sample_run hmac entropy fullSet categories L (attempt_init expanded) st"
    by (rule sample_loop_imp_run)
  show "coverage_run hmac entropy fullSet categories L req expanded r"
  proof (cases req)
    case False
    with rest have "r = st_chars st" by simp
    with coverage_run.break_unchecked [OF run False] show ?thesis by simp
  next
    case True
    show ?thesis
    proof (cases "all_present categories (st_present st)")
      case ok: True
      with rest True have "r = st_chars st" by simp
      with coverage_run.break_ok [OF run True ok] show ?thesis by simp
    next
      case bad: False
      with rest True have "f hmac entropy fullSet categories L req (st_expanded st) = Some r"
        by simp
      from coverage_run.try_again [OF run True bad IH [OF this]] show ?thesis .
    qed
  qed
qed

lemma generatePassword_run_iff:
  "generatePassword_run hmac entropy s r \<longleftrightarrow> generatePassword hmac entropy s = Some r"
proof
  assume "generatePassword_run hmac entropy s r"
  then show "generatePassword hmac entropy s = Some r"
  proof (cases rule: generatePassword_run.cases)
    case (builder_throws err)
    then show ?thesis by (simp add: generatePassword_def)
  next
    case (returns_result fullSet categories result)
    from coverage_run_imp_loop [OF returns_result(3)] returns_result(1,2)
    show ?thesis by (simp add: generatePassword_def Let_def)
  qed
next
  assume g: "generatePassword hmac entropy s = Some r"
  show "generatePassword_run hmac entropy s r"
  proof (cases "buildCharacterSets s")
    case (Inl err)
    with g have "r = Inl err" by (simp add: generatePassword_def)
    with generatePassword_run.builder_throws [OF Inl] show ?thesis by simp
  next
    case (Inr fc)
    obtain fullSet categories where fc: "fc = (fullSet, categories)" by (cases fc)
    with Inr have b: "buildCharacterSets s = Inr (fullSet, categories)" by simp
    with g obtain result where r: "r = Inr result" and
      c: "coverage_loop hmac entropy fullSet categories (passwordLength_of s)
            (requireEachSelected s) (expandEntropy hmac entropy (passwordLength_of s * 2)) = Some result"
      by (auto simp: generatePassword_def Let_def)
    from generatePassword_run.returns_result [OF b coverage_loop_imp_run [OF c]] r
    show ?thesis by simp
  qed
qed

section \<open>The expander block by block\<close>

text \<open>
  With digests of 32 bytes the copies of \<^verbatim>\<open>expandEntropy\<close> tile the output buffer: byte
  \<open>k * 32 + j\<close> of the result is byte \<open>j\<close> of the digest of the counter of block \<open>k\<close>.
\<close>

lemma length_concat_blocks:
  "\<forall>i. length (d i) = 32 \<Longrightarrow> length (concat (map d [0..<k])) = k * 32"
  by (induction k) simp_all

lemma fold_Buffer_copy_blocks:
  assumes len: "\<forall>i. length (d i) = (32::nat)"
  shows "k \<le> b \<Longrightarrow>
     fold (\<lambda>i out. Buffer_copy (d i) out (i * 32)) [0..<k] (replicate (b * 32) 0)
       = concat (map d [0..<k]) @ replicate ((b - k) * 32) 0"
proof (induction k)
  case 0
  show ?case by simp
next
  case (Suc k)
  let ?X = "concat (map d [0..<k])"
  have lx: "length ?X = k * 32" using len by (rule length_concat_blocks [of d])
  have ld: "length (d k) = 32" using len by simp
  from Suc.prems have kb: "k < b" by simp
  then have r: "(b - k) * 32 = 32 + (b - Suc k) * 32"
    by (simp add: algebra_simps Suc_diff_Suc)
  have prev: "fold (\<lambda>i out. Buffer_copy (d i) out (i * 32)) [0..<k] (replicate (b * 32) 0)
       = ?X @ replicate ((b - k) * 32) 0"
    using Suc.IH kb by simp
  have tot: "k * 32 + (32 + (b - Suc k) * 32) = b * 32"
    using kb by (simp add: algebra_simps) 
  have "Buffer_copy (d k) (?X @ replicate ((b - k) * 32) 0) (k * 32)
      = ?X @ d k @ replicate ((b - Suc k) * 32) 0"
    unfolding Buffer_copy_def r
    by (simp add: lx ld replicate_add)
  with prev show ?case by simp
qed

lemma expandEntropy_blocks:
  assumes "\<forall>m. length (hmac entropy m) = 32"
  shows "expandEntropy hmac entropy n
     = take n (concat (map (\<lambda>i. hmac entropy (Buffer_from [i])) [0..<(n + 31) div 32]))"
proof -
  have "\<forall>i. length (hmac entropy (Buffer_from [i])) = 32" using assms by simp
  from fold_Buffer_copy_blocks [of "\<lambda>i. hmac entropy (Buffer_from [i])" "(n + 31) div 32" "(n + 31) div 32", OF this]
  have "fold (\<lambda>i out. Buffer_copy (hmac entropy (Buffer_from [i])) out (i * 32))
          [0..<(n + 31) div 32] (replicate ((n + 31) div 32 * 32) 0)
        = concat (map (\<lambda>i. hmac entropy (Buffer_from [i])) [0..<(n + 31) div 32])"
    by simp
  then show ?thesis unfolding expandEntropy_def Let_def by simp
qed









text \<open>
  The bytes appended when a round runs out of buffer are those of block 0 again: the call
  \<^verbatim>\<open>expandEntropy(entropy, 32)\<close> restarts the counter.
\<close>

lemma re_expansion_is_block_0:
  assumes "\<forall>m. length (hmac entropy m) = 32"
  shows "expandEntropy hmac entropy 32 = hmac entropy (Buffer_from [0])"
  using assms by (simp add: expandEntropy_blocks [of hmac entropy 32, OF assms])

section \<open>The keyed hash is used on one-byte counters only\<close>

lemma expandEntropy_cong:
  assumes "\<forall>c. h1 entropy [c] = h2 entropy [c]"
  shows "expandEntropy h1 entropy n = expandEntropy h2 entropy n"
proof -
  have "h1 entropy (Buffer_from [i]) = h2 entropy (Buffer_from [i])" for i
    using assms by (simp add: Buffer_from_def)
  then show ?thesis by (simp add: expandEntropy_def)
qed

lemma sample_step_cong:
  assumes "\<forall>c. h1 entropy [c] = h2 entropy [c]"
  shows "sample_step h1 entropy fullSet categories = sample_step h2 entropy fullSet categories"
proof
  fix st
  show "sample_step h1 entropy fullSet categories st = sample_step h2 entropy fullSet categories st"
    by (simp add: sample_step_def grow_def expandEntropy_cong [of h1 entropy h2, OF assms])
qed

lemma sample_loop_cong:
  assumes "\<forall>c. h1 entropy [c] = h2 entropy [c]"
  shows "sample_loop h1 entropy fullSet categories L st = sample_loop h2 entropy fullSet categories L st"
  by (simp add: sample_loop_while sample_step_cong [of h1 entropy h2, OF assms])

text \<open>
  Hence the outcome of a call depends on the keyed hash only through its digests for the
  seed on one-byte messages.
\<close>

lemma generatePassword_hmac_cong:
  assumes "\<forall>c. h1 entropy [c] = h2 entropy [c]"
  shows "generatePassword h1 entropy s = generatePassword h2 entropy s"
proof (cases "buildCharacterSets s")
  case (Inl err)
  then show ?thesis by (simp add: generatePassword_def)
next
  case (Inr fc)
  obtain fullSet categories where "fc = (fullSet, categories)" by (cases fc)
  with Inr show ?thesis
    by (simp add: generatePassword_def Let_def coverage_loop_first_round
        expandEntropy_cong [of h1 entropy h2, OF assms] sample_loop_cong [of h1 entropy h2, OF assms])
qed

section \<open>Evaluations on the concrete inputs\<close>


lemma lower_digit_sets:
  "buildCharacterSets (lower_digit n req) =
     Inr (sets_lowercase @ sets_numbers, [(Lowercase, sets_lowercase), (Numbers, sets_numbers)])"
  by (simp add: buildCharacterSets_selected lower_digit_def sets_nonempty)

lemma first_round_zero_seed:
  "sample_loop ramp_hmac zero_seed (sets_lowercase @ sets_numbers)
     [(Lowercase, sets_lowercase), (Numbers, sets_numbers)] 1
     (attempt_init (expandEntropy ramp_hmac zero_seed 2))
   = Some \<lparr>st_chars = js ''a'', st_present = {Lowercase}, st_p = 1, st_expanded = [0, 37]\<rparr>"
  by code_simp

lemma lower_digit_fullSet: "fullSet_of (lower_digit n req) = sets_lowercase @ sets_numbers"
  by (simp add: fullSet_of_def lower_digit_sets)

lemma password_seed_35: "generatePassword ramp_hmac seed_35 (lower_digit 2 True) = Some (Inr (js ''9a''))"
  by code_simp

lemma password_seed_35_free: "generatePassword ramp_hmac seed_35 (lower_digit 3 False) = Some (Inr (js ''9ab''))"
  by code_simp

lemma oversized_fullSet: "length (fullSet_of oversized) = 257"
  by (simp add: fullSet_of_def buildCharacterSets_selected oversized_def
      sets_lowercase_def sets_uppercase_def sets_numbers_def sets_symbols_def
      sets_extendedLatin_def js_def)


lemma lower_digit_alphabet_length: "length (sets_lowercase @ sets_numbers) = 36"
  by (simp add: sets_lowercase_def sets_numbers_def js_def)

lemma password_length_zero:
  "generatePassword ramp_hmac seed_35 (lower_digit 0 False) = Some (Inr (js ''9abcdebcdefghefg''))"
  by code_simp

lemma password_length_one:
  "generatePassword ramp_hmac seed_35 (lower_digit 1 False) = Some (Inr (js ''9''))"
  by code_simp



section \<open>The claims\<close>

subsection \<open>C1: a retry consumes fresh expander output\<close>

text \<open>
  C1 says that when a candidate fails the coverage check, the next candidate is made from
  further expander output, so that the byte positions read by successive rounds are
  pairwise disjoint. The code does the opposite. A round that ends in the state \<open>st\<close> has
  read the positions \<open>0, ..., st_p st - 1\<close> of the buffer; the next round starts from
  \<open>attempt_init (st_expanded st)\<close>, that is at position 0 of the same buffer, and the
  theorem shows that it ends in the same state \<open>st\<close>: it has read the same positions
  (at least one, since a candidate has a character) and assembled the same candidate.
\<close>

theorem retry_rereads_consumed_bytes:
  assumes "sample_loop hmac entropy fullSet categories L (attempt_init expanded) = Some st"
    and "0 < L"
  shows "sample_loop hmac entropy fullSet categories L (attempt_init (st_expanded st)) = Some st
         \<and> 0 < st_p st"
proof -
  have "L \<le> st_p st"
    using attempt_length [OF assms(1)] attempt_consumes [OF assms(1)] by simp
  with assms(2) attempt_replay [OF assms(1)] show ?thesis by simp
qed

theorem retry_rereads_consumed_bytes_witness:
  "sample_loop ramp_hmac zero_seed (sets_lowercase @ sets_numbers)
     [(Lowercase, sets_lowercase), (Numbers, sets_numbers)] 1
     (attempt_init (expandEntropy ramp_hmac zero_seed 2))
   = Some \<lparr>st_chars = js ''a'', st_present = {Lowercase}, st_p = 1, st_expanded = [0, 37]\<rparr>
   \<and> (0::nat) < 1
   \<and> sample_loop ramp_hmac zero_seed (sets_lowercase @ sets_numbers)
     [(Lowercase, sets_lowercase), (Numbers, sets_numbers)] 1 (attempt_init [0, 37])
   = Some \<lparr>st_chars = js ''a'', st_present = {Lowercase}, st_p = 1, st_expanded = [0, 37]\<rparr>"
  using retry_rereads_consumed_bytes [OF first_round_zero_seed] first_round_zero_seed
  by simp

subsection \<open>C2: the retry loop is capped\<close>




subsection \<open>C3: length and alphabet of a returned password\<close>

text \<open>
  C3: for every seed and every settings with a non-empty alphabet and a length \<open>L\<close> in
  \<open>[1, 2048]\<close>, a password that \<^verbatim>\<open>generatePassword\<close> returns has exactly \<open>L\<close> characters
  (code units), and each of them occurs in the alphabet built from the settings.
\<close>

theorem password_length_and_alphabet:
  assumes "fullSet_of s \<noteq> []"
    and "1 \<le> length_setting s" and "length_setting s \<le> 2048"
    and "generatePassword hmac entropy s = Some (Inr pw)"
  shows "int (length pw) = length_setting s \<and> set pw \<subseteq> set (fullSet_of s)"
proof -
  from generatePassword_returns [OF assms(4)] obtain fullSet categories st where
    b: "buildCharacterSets s = Inr (fullSet, categories)" and
    run: "sample_loop hmac entropy fullSet categories (passwordLength_of s)
             (attempt_init (expandEntropy hmac entropy (passwordLength_of s * 2))) = Some st" and
    pw: "pw = st_chars st"
    by blast
  have "length pw = passwordLength_of s"
    unfolding pw using run by (rule attempt_length)
  moreover have "int (passwordLength_of s) = length_setting s"
    using assms(2,3) by (simp add: passwordLength_of_def)
  moreover have "set pw \<subseteq> set fullSet"
    unfolding pw using run buildCharacterSets_Inr(1) [OF b] by (rule attempt_alphabet)
  ultimately show ?thesis by (simp add: fullSet_of_Inr [OF b])
qed

theorem password_length_and_alphabet_witness:
  "fullSet_of (lower_digit 3 False) \<noteq> []
   \<and> 1 \<le> length_setting (lower_digit 3 False) \<and> length_setting (lower_digit 3 False) \<le> 2048
   \<and> generatePassword ramp_hmac seed_35 (lower_digit 3 False) = Some (Inr (js ''9ab''))
   \<and> int (length (js ''9ab'')) = length_setting (lower_digit 3 False)
   \<and> set (js ''9ab'') \<subseteq> set (fullSet_of (lower_digit 3 False))"
proof -
  have h1: "fullSet_of (lower_digit 3 False) \<noteq> []"
    by (simp add: lower_digit_fullSet sets_nonempty)
  have h2: "1 \<le> length_setting (lower_digit 3 False)" "length_setting (lower_digit 3 False) \<le> 2048"
    by (simp_all add: lower_digit_def)
  from password_length_and_alphabet [OF h1 h2 password_seed_35_free] h1 h2 password_seed_35_free
  show ?thesis by simp
qed

subsection \<open>C4: rejection sampling\<close>

text \<open>
  C4: with \<open>m\<close> the length of the alphabet, the threshold \<^verbatim>\<open>256 - (256 % m)\<close> is the
  largest multiple of \<open>m\<close> not exceeding 256; a round of the inner loop consumes one byte
  \<open>b\<close>, discards it when \<open>b\<close> is at least the threshold, and otherwise appends the
  character at index \<open>b mod m\<close> of the alphabet.
\<close>

theorem rejection_sampling_round:
  assumes "fullSet \<noteq> []"
    and "m = length fullSet"
    and "b = unat (grow hmac entropy (st_p st) (st_expanded st) ! st_p st)"
  shows "max_of m = 256 - 256 mod m \<and>
         m dvd max_of m \<and> max_of m \<le> 256 \<and> (\<forall>k. m dvd k \<and> k \<le> 256 \<longrightarrow> k \<le> max_of m) \<and>
         st_p (sample_step hmac entropy fullSet categories st) = st_p st + 1 \<and>
         (max_of m \<le> b \<longrightarrow>
            st_chars (sample_step hmac entropy fullSet categories st) = st_chars st) \<and>
         (b < max_of m \<longrightarrow>
            b mod m < m \<and>
            st_chars (sample_step hmac entropy fullSet categories st)
              = st_chars st @ [fullSet ! (b mod m)])"
proof -
  from assms(1,2) have m: "0 < m" by simp
  note lm = max_of_largest_multiple [OF m]
  have "\<forall>k. m dvd k \<and> k \<le> 256 \<longrightarrow> k \<le> max_of m" using lm(3) by blast
  moreover have "max_of m \<le> b \<longrightarrow>
            st_chars (sample_step hmac entropy fullSet categories st) = st_chars st"
    by (simp add: sample_step_chars Let_def assms(2,3))
  moreover have "b < max_of m \<longrightarrow>
            b mod m < m \<and>
            st_chars (sample_step hmac entropy fullSet categories st)
              = st_chars st @ [fullSet ! (b mod m)]"
    using m by (simp add: sample_step_chars Let_def assms(2,3))
  ultimately show ?thesis
    using lm(1,2) by (simp add: sample_step_p max_of_def)
qed

theorem rejection_sampling_round_witness:
  "sets_lowercase @ sets_numbers \<noteq> [] \<and>
   max_of 36 = 252 \<and> (36::nat) dvd 252 \<and>
   unat (grow ramp_hmac zero_seed 0 [37] ! 0) = 37 \<and>
   unat (grow ramp_hmac zero_seed 0 [253] ! 0) = 253 \<and>
   st_chars (sample_step ramp_hmac zero_seed (sets_lowercase @ sets_numbers)
      [(Lowercase, sets_lowercase), (Numbers, sets_numbers)] (attempt_init [37]))
     = [(sets_lowercase @ sets_numbers) ! 1] \<and>
   st_chars (sample_step ramp_hmac zero_seed (sets_lowercase @ sets_numbers)
      [(Lowercase, sets_lowercase), (Numbers, sets_numbers)] (attempt_init [253])) = []"
proof -
  have ne: "sets_lowercase @ sets_numbers \<noteq> []" by (simp add: sets_nonempty)
  have b1: "unat (grow ramp_hmac zero_seed 0 [37] ! 0) = 37"
    and b2: "unat (grow ramp_hmac zero_seed 0 [253] ! 0) = 253"
    by (simp_all add: grow_def)
  have mx: "max_of 36 = 252" by (simp add: max_of_def)
  from rejection_sampling_round [OF ne lower_digit_alphabet_length [symmetric], of 37 ramp_hmac
      zero_seed "attempt_init [37]" "[(Lowercase, sets_lowercase), (Numbers, sets_numbers)]"]
    rejection_sampling_round [OF ne lower_digit_alphabet_length [symmetric], of 253 ramp_hmac
      zero_seed "attempt_init [253]" "[(Lowercase, sets_lowercase), (Numbers, sets_numbers)]"]
    ne b1 b2 mx
  show ?thesis by (simp add: attempt_init_def)
qed

subsection \<open>C5: a returned password covers every selected category\<close>

text \<open>
  C5: with \<^verbatim>\<open>requireEachSelected\<close> set, a password that \<^verbatim>\<open>generatePassword\<close> returns has
  at least one character of every selected category: of each category whose flag is set,
  and of the custom characters when there are any. The instance after the theorem is
  the case of the claim's second sentence: lowercase and numbers only, length 2, a
  password with a lowercase letter and a digit.
\<close>

theorem returned_password_covers_selected:
  assumes "requireEachSelected s"
    and "generatePassword hmac entropy s = Some (Inr pw)"
  shows "(includeLowercase s \<longrightarrow> (\<exists>ch\<in>set pw. ch \<in> set sets_lowercase)) \<and>
         (includeUppercase s \<longrightarrow> (\<exists>ch\<in>set pw. ch \<in> set sets_uppercase)) \<and>
         (includeNumbers s \<longrightarrow> (\<exists>ch\<in>set pw. ch \<in> set sets_numbers)) \<and>
         (includeSymbols s \<longrightarrow> (\<exists>ch\<in>set pw. ch \<in> set sets_symbols)) \<and>
         (includeExtendedLatin s \<longrightarrow> (\<exists>ch\<in>set pw. ch \<in> set sets_extendedLatin)) \<and>
         (customCharacters s \<noteq> [] \<longrightarrow> (\<exists>ch\<in>set pw. ch \<in> set (customCharacters s)))"
proof -
  from generatePassword_returns [OF assms(2)] assms(1) obtain fullSet categories st where
    b: "buildCharacterSets s = Inr (fullSet, categories)" and
    run: "sample_loop hmac entropy fullSet categories (passwordLength_of s)
             (attempt_init (expandEntropy hmac entropy (passwordLength_of s * 2))) = Some st" and
    pw: "pw = st_chars st" and
    ok: "all_present categories (st_present st)"
    by blast
  note cov = covered_category [OF run ok buildCharacterSets_Inr(3) [OF b], folded pw]
  show ?thesis
    using cov buildCharacterSets_Inr(4-9) [OF b] by blast
qed

theorem returned_password_covers_selected_witness:
  "requireEachSelected (lower_digit 2 True)
   \<and> generatePassword ramp_hmac seed_35 (lower_digit 2 True) = Some (Inr (js ''9a''))
   \<and> includeLowercase (lower_digit 2 True) \<and> includeNumbers (lower_digit 2 True)
   \<and> (\<exists>ch\<in>set (js ''9a''). ch \<in> set sets_lowercase)
   \<and> (\<exists>ch\<in>set (js ''9a''). ch \<in> set sets_numbers)"
proof -
  have h: "requireEachSelected (lower_digit 2 True)" by (simp add: lower_digit_def)
  have f: "includeLowercase (lower_digit 2 True)" "includeNumbers (lower_digit 2 True)"
    by (simp_all add: lower_digit_def)
  from returned_password_covers_selected [OF h password_seed_35] h f password_seed_35
  show ?thesis by simp
qed

subsection \<open>C6: determinism\<close>

text \<open>
  C6: \<^verbatim>\<open>generatePassword\<close> is deterministic. Two evaluations on the same seed and the same
  settings, that is two derivations of \<open>generatePassword_run\<close> for the same call, end in
  the same outcome: the same password, or the same error; and that outcome is the value
  of the function \<open>generatePassword\<close> at the seed and the settings. The proof of the first
  part is by induction on the first derivation and inversion of the second: in every
  state the guards of the rules exclude one another, and the rule that applies fixes the
  next state.
\<close>

theorem generatePassword_deterministic:
  assumes "generatePassword_run hmac entropy s r1"
    and "generatePassword_run hmac entropy s r2"
  shows "r1 = r2 \<and> generatePassword hmac entropy s = Some r1"
proof -
  have "r1 = r2"
    using assms(1)
  proof (cases rule: generatePassword_run.cases)
    case (builder_throws err)
    from assms(2) show ?thesis
    proof (cases rule: generatePassword_run.cases)
      case (builder_throws err2)
      with \<open>buildCharacterSets s = Inl err\<close> \<open>r1 = Inl err\<close> show ?thesis by simp
    next
      case (returns_result fullSet categories result)
      with \<open>buildCharacterSets s = Inl err\<close> show ?thesis by simp
    qed
  next
    case (returns_result fullSet categories result)
    note first = this
    from assms(2) show ?thesis
    proof (cases rule: generatePassword_run.cases)
      case (builder_throws err2)
      with first show ?thesis by simp
    next
      case (returns_result fullSet2 categories2 result2)
      with first have "fullSet2 = fullSet" "categories2 = categories" by simp_all
      with returns_result(3) first(3) have "result = result2"
        by (simp add: coverage_run_deterministic)
      with first returns_result show ?thesis by simp
    qed
  qed
  moreover from assms(1) have "generatePassword hmac entropy s = Some r1"
    by (simp add: generatePassword_run_iff)
  ultimately show ?thesis by simp
qed

theorem generatePassword_deterministic_witness:
  "generatePassword_run ramp_hmac seed_35 (lower_digit 2 True) (Inr (js ''9a'')) \<and>
   generatePassword_run ramp_hmac seed_35 (lower_digit 2 True) (Inr [57, 97]) \<and>
   (Inr (js ''9a'') :: error + jsstring) = Inr [57, 97] \<and>
   generatePassword ramp_hmac seed_35 (lower_digit 2 True) = Some (Inr (js ''9a''))"
proof -
  have r1: "generatePassword_run ramp_hmac seed_35 (lower_digit 2 True) (Inr (js ''9a''))"
    using password_seed_35 by (simp add: generatePassword_run_iff)
  have r2: "generatePassword_run ramp_hmac seed_35 (lower_digit 2 True) (Inr [57, 97])"
    using password_seed_35 by (simp add: generatePassword_run_iff js_def)
  from generatePassword_deterministic [OF r1 r2] r1 r2 show ?thesis by simp
qed

subsection \<open>C7: an alphabet of more than 256 characters\<close>

text \<open>
  C7: when the alphabet built from the settings has more than 256 characters, the rejection
  threshold \<^verbatim>\<open>256 - (256 % setLength)\<close> is 0, a round of the inner loop never adds a
  character, and \<^verbatim>\<open>generatePassword\<close> does not return, for any seed.
\<close>

theorem oversized_alphabet_never_returns:
  assumes "256 < length (fullSet_of s)"
  shows "max_of (length (fullSet_of s)) = 0 \<and>
         (\<forall>st. st_chars (sample_step hmac entropy (fullSet_of s) (categories_of s) st) = st_chars st) \<and>
         generatePassword hmac entropy s = None"
proof -
  from assms obtain fullSet categories where b: "buildCharacterSets s = Inr (fullSet, categories)"
    by (cases "buildCharacterSets s") (auto simp: fullSet_of_def)
  have f: "fullSet_of s = fullSet" using b by (rule fullSet_of_Inr)
  have big: "256 < length fullSet" using assms f by simp
  have "generatePassword hmac entropy s = None"
    by (simp add: generatePassword_def b Let_def coverage_loop_first_round
        sample_loop_oversized [OF big passwordLength_of_pos])
  with assms show ?thesis
    by (simp add: max_of_oversized sample_step_oversized)
qed

theorem oversized_alphabet_never_returns_witness:
  "256 < length (fullSet_of oversized) \<and> max_of (length (fullSet_of oversized)) = 0 \<and>
   generatePassword ramp_hmac zero_seed oversized = None"
  using oversized_alphabet_never_returns [of oversized ramp_hmac zero_seed]
  by (simp add: oversized_fullSet)

subsection \<open>C8: block indices from 256 on\<close>




subsection \<open>C9: the length is clamped into 1..2048\<close>

text \<open>
  C9 says that the length used is the requested length clamped into \<open>[1, 2048]\<close>, so
  that a requested length of 0 gives one character. In \<^verbatim>\<open>settings.length || 16\<close> a
  length of 0 is falsy and is replaced by 16 before the clamp: the call below returns 16
  characters.
\<close>

theorem length_zero_counterexample:
  "passwordLength_of (lower_digit 0 False) = 16 \<and>
   generatePassword ramp_hmac seed_35 (lower_digit 0 False) = Some (Inr (js ''9abcdebcdefghefg'')) \<and>
   length (js ''9abcdebcdefghefg'') = 16"
  using password_length_zero by (simp add: passwordLength_of_def lower_digit_def js_def)

text \<open>
  C9 as amended: a requested length of 0 is replaced by the default 16; every other
  length is clamped into \<open>[1, 2048]\<close>, so a length above 2048 gives 2048 and a negative
  one gives 1; a password that is returned has exactly that many characters, all of the
  alphabet, and for a requested length of 1 it is a single character of the alphabet.
\<close>

theorem password_length_clamped:
  "passwordLength_of s =
     (if length_setting s = 0 then 16
      else if length_setting s < 1 then 1
      else if 2048 < length_setting s then 2048
      else nat (length_setting s)) \<and>
   (\<forall>pw. generatePassword hmac entropy s = Some (Inr pw) \<longrightarrow>
      length pw = passwordLength_of s \<and> set pw \<subseteq> set (fullSet_of s))"
proof -
  have "length pw = passwordLength_of s \<and> set pw \<subseteq> set (fullSet_of s)"
    if "generatePassword hmac entropy s = Some (Inr pw)" for pw
  proof -
    from generatePassword_returns [OF that] obtain fullSet categories st where
      b: "buildCharacterSets s = Inr (fullSet, categories)" and
      run: "sample_loop hmac entropy fullSet categories (passwordLength_of s)
             (attempt_init (expandEntropy hmac entropy (passwordLength_of s * 2))) = Some st" and
      pw: "pw = st_chars st"
      by blast
    have "length pw = passwordLength_of s"
      unfolding pw using run by (rule attempt_length)
    moreover have "set pw \<subseteq> set fullSet"
      unfolding pw using run buildCharacterSets_Inr(1) [OF b] by (rule attempt_alphabet)
    ultimately show ?thesis by (simp add: fullSet_of_Inr [OF b])
  qed
  then show ?thesis by (simp add: passwordLength_of_def)
qed

theorem password_length_clamped_witness:
  "passwordLength_of (lower_digit 5000 False) = 2048 \<and>
   passwordLength_of (lower_digit (- 3) False) = 1 \<and>
   passwordLength_of (lower_digit 0 False) = 16 \<and>
   passwordLength_of (lower_digit 1 False) = 1 \<and>
   generatePassword ramp_hmac seed_35 (lower_digit 1 False) = Some (Inr (js ''9'')) \<and>
   length (js ''9'') = 1 \<and> set (js ''9'') \<subseteq> set (fullSet_of (lower_digit 1 False))"
proof -
  note inst = password_length_clamped [of _ ramp_hmac seed_35]
  from inst [of "lower_digit 1 False", THEN conjunct2, rule_format, OF password_length_one]
    inst [of "lower_digit 5000 False", THEN conjunct1]
    inst [of "lower_digit (- 3) False", THEN conjunct1]
    inst [of "lower_digit 0 False", THEN conjunct1]
    inst [of "lower_digit 1 False", THEN conjunct1]
    password_length_one
  show ?thesis by (simp add: lower_digit_def)
qed

subsection \<open>C10: nothing selected\<close>

text \<open>
  C10: when the five category flags are false and the custom characters are empty, the
  builder raises its error, \<^verbatim>\<open>generatePassword\<close> throws it for every seed and every
  keyed hash (no byte is expanded or sampled on the way), and the \<^verbatim>\<open>/generate\<close> handler
  answers with status 400 and an error message: no password, no empty string, no crash.
\<close>

theorem nothing_selected_is_an_error:
  assumes "\<not> includeLowercase s" "\<not> includeUppercase s" "\<not> includeNumbers s"
    "\<not> includeSymbols s" "\<not> includeExtendedLatin s" "customCharacters s = []"
  shows "buildCharacterSets s = Inl (Error ''No character categories selected'') \<and>
         generatePassword hmac entropy s = Some (Inl (Error ''No character categories selected'')) \<and>
         (\<exists>message. generate_endpoint hmac entropy s = Some (Response 400 (ErrorBody message))) \<and>
         (length entropy = 32 \<longrightarrow>
            generate_endpoint hmac entropy s
              = Some (Response 400 (ErrorBody ''No character categories selected'')))"
proof -
  have b: "buildCharacterSets s = Inl (Error ''No character categories selected'')"
    using assms by (simp add: buildCharacterSets_Inl)
  then have g: "generatePassword hmac entropy s = Some (Inl (Error ''No character categories selected''))"
    by (simp add: generatePassword_def)
  show ?thesis
    using b g by (simp add: generate_endpoint_def)
qed

theorem nothing_selected_is_an_error_witness:
  "\<not> includeLowercase nothing_selected \<and> \<not> includeUppercase nothing_selected \<and>
   \<not> includeNumbers nothing_selected \<and> \<not> includeSymbols nothing_selected \<and>
   \<not> includeExtendedLatin nothing_selected \<and> customCharacters nothing_selected = [] \<and>
   length zero_seed = 32 \<and>
   generatePassword ramp_hmac zero_seed nothing_selected
     = Some (Inl (Error ''No character categories selected'')) \<and>
   generate_endpoint ramp_hmac zero_seed nothing_selected
     = Some (Response 400 (ErrorBody ''No character categories selected''))"
  using nothing_selected_is_an_error [of nothing_selected ramp_hmac zero_seed]
  by (simp add: nothing_selected_def zero_seed_def)

end
